theory Spec2Isabelle
  imports Main
begin

section \<open>Characters, strings and the library primitives the program calls\<close>

text \<open>
  \<^verbatim>\<open>doaddoad.py\<close> works on three kinds of text.
  \<^item> The text of a stored tweet is a Python \<^verbatim>\<open>str\<close> holding arbitrary Unicode; it is
    modelled as the list of its code points (\<open>unicode\<close>).
  \<^item> The sanitised input of dadadodo is a \<^verbatim>\<open>bytes\<close> object, modelled as a \<open>string\<close>
    (a list of 8-bit characters).
  \<^item> The output of dadadodo is decoded by \<^verbatim>\<open>str(out, "ascii")\<close>, which raises on every
    byte above 127, so the \<^verbatim>\<open>str\<close> handled by \<^verbatim>\<open>_extract_tweets\<close> and \<^verbatim>\<open>_fix_rt\<close> holds ASCII
    only. It is modelled as a \<open>string\<close> as well; the character classes of \<^verbatim>\<open>re\<close> and
    \<^verbatim>\<open>str\<close> below are the ones CPython uses on the ASCII range.
\<close>

type_synonym unicode = "nat list"

definition ustr :: "string \<Rightarrow> unicode" where
  "ustr s = map of_char s"

definition is_ascii :: "char \<Rightarrow> bool" where
  "is_ascii c = ((of_char c :: nat) < 128)"

text \<open>\<^verbatim>\<open>\s\<close> in a bytes pattern: the six characters \<^verbatim>\<open>[ \t\n\r\f\v]\<close>.\<close>

definition bytes_space :: "char \<Rightarrow> bool" where
  "bytes_space c = (let n = (of_char c :: nat) in (9 \<le> n \<and> n \<le> 13) \<or> n = 32)"

text \<open>
  \<^verbatim>\<open>\s\<close> in a str pattern and the characters removed by \<^verbatim>\<open>str.strip()\<close>: the ASCII
  characters for which \<^verbatim>\<open>str.isspace()\<close> holds, that is the six above and the four
  separators \<^verbatim>\<open>\x1c\<close> to \<^verbatim>\<open>\x1f\<close>.
\<close>

definition isspace :: "char \<Rightarrow> bool" where
  "isspace c = (let n = (of_char c :: nat) in (9 \<le> n \<and> n \<le> 13) \<or> (28 \<le> n \<and> n \<le> 32))"

text \<open>\<^verbatim>\<open>text.encode("ascii", "ignore")\<close>: code points above 127 are dropped.\<close>

definition encode_ascii_ignore :: "unicode \<Rightarrow> string" where
  "encode_ascii_ignore u = map char_of (filter (\<lambda>n. n < 128) u)"

text \<open>\<^verbatim>\<open>re.sub("\s+", " ", text)\<close>, for the whitespace class \<open>sp\<close> of the pattern's type:
  every maximal run of whitespace becomes one space.\<close>

function re_sub_spaces :: "(char \<Rightarrow> bool) \<Rightarrow> string \<Rightarrow> string" where
  "re_sub_spaces sp [] = []"
| "re_sub_spaces sp (c # cs) =
     (if sp c then CHR '' '' # re_sub_spaces sp (dropWhile sp cs)
      else c # re_sub_spaces sp cs)"
  by pat_completeness auto
termination
  by (relation "measure (\<lambda>(sp, s). length s)")
     (auto simp: less_Suc_eq_le length_dropWhile_le)

text \<open>\<^verbatim>\<open>str.strip()\<close> without argument.\<close>

definition lstrip :: "string \<Rightarrow> string" where
  "lstrip s = dropWhile isspace s"

definition rstrip :: "string \<Rightarrow> string" where
  "rstrip s = rev (dropWhile isspace (rev s))"

definition strip :: "string \<Rightarrow> string" where
  "strip s = rstrip (lstrip s)"

text \<open>\<^verbatim>\<open>text.replace(a, b)\<close> for one-character \<open>a\<close> and \<open>b\<close>.\<close>

definition replace_char :: "char \<Rightarrow> char \<Rightarrow> string \<Rightarrow> string" where
  "replace_char a b s = map (\<lambda>c. if c = a then b else c) s"

text \<open>\<^verbatim>\<open>sep.join(parts)\<close>.\<close>

fun join :: "string \<Rightarrow> string list \<Rightarrow> string" where
  "join sep [] = []"
| "join sep [p] = p"
| "join sep (p # q # ps) = p @ sep @ join sep (q # ps)"

subsection \<open>Backtracking\<close>

text \<open>
  Python's \<^verbatim>\<open>re\<close> is a backtracking matcher: a greedy quantifier first takes as much as it
  can and gives characters back one at a time while the rest of the pattern fails. The
  regular expressions of the program are written below as that search: \<open>greedy p s\<close>
  lists the ways \<^verbatim>\<open>X*\<close> can split \<open>s\<close>, the longest match first, \<open>optional c s\<close> those of
  \<^verbatim>\<open>c?\<close>, and \<open>first_match\<close> returns the first alternative on which the rest of the
  pattern succeeds.
\<close>

fun greedy :: "(char \<Rightarrow> bool) \<Rightarrow> string \<Rightarrow> (string \<times> string) list" where
  "greedy p [] = [([], [])]"
| "greedy p (c # cs) =
     (if p c then map (\<lambda>(m, r). (c # m, r)) (greedy p cs) @ [([], c # cs)]
      else [([], c # cs)])"

definition optional :: "char \<Rightarrow> string \<Rightarrow> (string \<times> string) list" where
  "optional c s = (case s of
       x # xs \<Rightarrow> if x = c then [([c], xs), ([], s)] else [([], s)]
     | [] \<Rightarrow> [([], s)])"

fun first_match :: "('a \<Rightarrow> 'b option) \<Rightarrow> 'a list \<Rightarrow> 'b option" where
  "first_match f [] = None"
| "first_match f (x # xs) = (case f x of Some y \<Rightarrow> Some y | None \<Rightarrow> first_match f xs)"

section \<open>The input sanitizer\<close>

text \<open>
  \<^verbatim>\<open>re.sub(b"https?://(\S+)?", b"", text, flags=re.IGNORECASE)\<close>. \<open>match_url s\<close> matches
  the pattern at the head of \<open>s\<close> and returns what follows the match. For a bytes pattern
  \<^verbatim>\<open>IGNORECASE\<close> folds the ASCII letters only. \<^verbatim>\<open>s?\<close> takes the \<^verbatim>\<open>s\<close> first and gives it
  back when \<^verbatim>\<open>://\<close> does not follow; \<^verbatim>\<open>(\S+)?\<close> is last in the pattern, so it keeps its
  longest match.
\<close>

definition lower_eq :: "char \<Rightarrow> char \<Rightarrow> bool" where
  "lower_eq c l = (c = l \<or> (of_char c :: nat) + 32 = of_char l)"

definition match_lit :: "string \<Rightarrow> string \<Rightarrow> string option" where
  "match_lit lit s = (if take (length lit) s = lit then Some (drop (length lit) s) else None)"

definition match_url :: "string \<Rightarrow> string option" where
  "match_url s = (case s of
       h # t1 # t2 # p # r \<Rightarrow>
         if lower_eq h CHR ''h'' \<and> lower_eq t1 CHR ''t'' \<and> lower_eq t2 CHR ''t''
            \<and> lower_eq p CHR ''p''
         then first_match
                (\<lambda>r1. case match_lit ''://'' r1 of
                    Some r2 \<Rightarrow> Some (dropWhile (\<lambda>c. \<not> bytes_space c) r2)
                  | None \<Rightarrow> None)
                ((case r of x # xs \<Rightarrow> if lower_eq x CHR ''s'' then [xs] else [] | [] \<Rightarrow> [])
                 @ [r])
         else None
     | _ \<Rightarrow> None)"

lemma first_match_Some: "first_match f xs = Some y \<Longrightarrow> \<exists>x\<in>set xs. f x = Some y"
  by (induction xs) (auto split: option.splits)

lemma match_lit_length: "match_lit lit s = Some r \<Longrightarrow> length r \<le> length s"
  by (auto simp: match_lit_def split: if_splits)

lemma match_url_shorter:
  assumes "match_url s = Some r"
  shows "length r < length s"
proof -
  from assms obtain h t1 t2 p r0 where s: "s = h # t1 # t2 # p # r0"
    by (auto simp: match_url_def split: list.splits)
  let ?f = "\<lambda>r1. case match_lit ''://'' r1 of
              Some r2 \<Rightarrow> Some (dropWhile (\<lambda>c. \<not> bytes_space c) r2) | None \<Rightarrow> None"
  let ?cands = "(case r0 of x # xs \<Rightarrow> if lower_eq x CHR ''s'' then [xs] else [] | [] \<Rightarrow> [])
                 @ [r0]"
  from assms s have "first_match ?f ?cands = Some r"
    by (simp add: match_url_def split: if_splits)
  then obtain r1 where r1: "r1 \<in> set ?cands" and f: "?f r1 = Some r"
    by (blast dest: first_match_Some)
  from r1 have "length r1 \<le> length r0"
    by (auto split: list.splits if_splits)
  moreover from f obtain r2 where "match_lit ''://'' r1 = Some r2"
    and "r = dropWhile (\<lambda>c. \<not> bytes_space c) r2"
    by (auto split: option.splits)
  then have "length r \<le> length r1"
    using match_lit_length [of "''://''" r1 r2] length_dropWhile_le [of _ r2]
    by (metis le_trans)
  ultimately show ?thesis using s by simp
qed

function re_sub_url :: "string \<Rightarrow> string" where
  "re_sub_url [] = []"
| "re_sub_url (c # cs) =
     (case match_url (c # cs) of
        Some r \<Rightarrow> re_sub_url r
      | None \<Rightarrow> c # re_sub_url cs)"
  by pat_completeness auto
termination
  by (relation "measure length") (auto dest: match_url_shorter)

text \<open>The body of the loop of \<^verbatim>\<open>_dadadodo_input\<close>: what is yielded for one tweet text.\<close>

definition sanitize :: "unicode \<Rightarrow> string" where
  "sanitize t =
     (let text = encode_ascii_ignore t;
          text = re_sub_spaces bytes_space text
      in re_sub_url text)"

section \<open>The retweet repair\<close>

text \<open>
  \<^verbatim>\<open>rt_find_re.match(text)\<close> for
  \<^verbatim>\<open>(?P<lead>^.*)([Rr][Tt]) +@?(?P<who>\S+) ?(?P<trail>.*)$\<close>.
  No flag is given: \<^verbatim>\<open>.\<close> is any character but a newline, and \<^verbatim>\<open>$\<close> holds at the end
  of the text and before a newline that ends it. The result holds the groups
  \<open>lead\<close>, \<open>who\<close> and \<open>trail\<close>.
\<close>

definition at_dollar :: "string \<Rightarrow> bool" where
  "at_dollar r = (r = [] \<or> r = [CHR 0x0A])"

definition not_newline :: "char \<Rightarrow> bool" where
  "not_newline c = (c \<noteq> CHR 0x0A)"

definition rt_find_re :: "string \<Rightarrow> (string \<times> string \<times> string) option" where
  "rt_find_re text =
     first_match (\<lambda>(lead, r1).
       case r1 of
         c1 # c2 # r2 \<Rightarrow>
           if (c1 = CHR ''R'' \<or> c1 = CHR ''r'') \<and> (c2 = CHR ''T'' \<or> c2 = CHR ''t'') then
             first_match (\<lambda>(spaces, r3).
               if spaces = [] then None else
               first_match (\<lambda>(at, r4).
                 first_match (\<lambda>(who, r5).
                   if who = [] then None else
                   first_match (\<lambda>(space, r6).
                     first_match (\<lambda>(trail, r7).
                       if at_dollar r7 then Some (lead, who, trail) else None)
                     (greedy not_newline r6))
                   (optional CHR '' '' r5))
                 (greedy (\<lambda>c. \<not> isspace c) r4))
               (optional CHR ''@'' r3))
             (greedy (\<lambda>c. c = CHR '' '') r2)
           else None
       | _ \<Rightarrow> None)
     (greedy not_newline text)"

definition fix_rt :: "string \<Rightarrow> string" where
  "fix_rt text =
     (case rt_find_re text of
        Some (lead, who, trail) \<Rightarrow> strip (''RT @'' @ who @ '' '' @ lead @ trail)
      | None \<Rightarrow> text)"

section \<open>The output reconstructor\<close>

definition TWEET_MAXLENGTH :: nat where
  "TWEET_MAXLENGTH = 140"

text \<open>The exceptions that the modelled code can raise.\<close>

datatype error = DoadDoadError | UnicodeDecodeError | UnpicklingError | ValueError | KeyError

subsection \<open>\<^verbatim>\<open>textwrap.wrap\<close>\<close>

text \<open>
  \<^verbatim>\<open>textwrap.wrap(text, TWEET_MAXLENGTH)\<close> is CPython's \<^verbatim>\<open>TextWrapper\<close> with its default
  options: tabs expanded, whitespace replaced, long words broken, whitespace dropped at
  the ends of a line, breaks allowed after hyphens, no indent and no line limit. The
  functions below follow \<^verbatim>\<open>Lib/textwrap.py\<close> method by method.

  \<^verbatim>\<open>_whitespace\<close> of the module is \<^verbatim>\<open>'\t\n\x0b\x0c\r '\<close>; \<^verbatim>\<open>\w\<close> and \<^verbatim>\<open>\d\<close> are given on
  the ASCII range; \<open>letter\<close> is \<^verbatim>\<open>[^\d\W]\<close> and \<open>word_punct\<close> is \<^verbatim>\<open>[\w!"'&.,?]\<close>.
\<close>

definition whitespace :: "char \<Rightarrow> bool" where
  "whitespace c = (let n = (of_char c :: nat) in (9 \<le> n \<and> n \<le> 13) \<or> n = 32)"

definition is_digit :: "char \<Rightarrow> bool" where
  "is_digit c = (let n = (of_char c :: nat) in 48 \<le> n \<and> n \<le> 57)"

definition is_word :: "char \<Rightarrow> bool" where
  "is_word c = (let n = (of_char c :: nat) in
      (48 \<le> n \<and> n \<le> 57) \<or> (65 \<le> n \<and> n \<le> 90) \<or> n = 95 \<or> (97 \<le> n \<and> n \<le> 122))"

definition letter :: "char \<Rightarrow> bool" where
  "letter c = (is_word c \<and> \<not> is_digit c)"

definition word_punct :: "char \<Rightarrow> bool" where
  "word_punct c = (is_word c \<or> c \<in> set [CHR ''!'', CHR 0x22, CHR 0x27, CHR ''&'', CHR ''.'', CHR '','', CHR ''?''])"

text \<open>\<^verbatim>\<open>str.expandtabs(tabsize)\<close>, with the column counted from the last line break.\<close>

fun expandtabs :: "nat \<Rightarrow> nat \<Rightarrow> string \<Rightarrow> string" where
  "expandtabs tabsize col [] = []"
| "expandtabs tabsize col (c # cs) =
     (if c = CHR 0x09 then
        (if tabsize > 0 then
           let incr = tabsize - col mod tabsize
           in replicate incr CHR '' '' @ expandtabs tabsize (col + incr) cs
         else expandtabs tabsize col cs)
      else c # expandtabs tabsize (if c = CHR 0x0A \<or> c = CHR 0x0D then 0 else col + 1) cs)"

definition munge_whitespace :: "string \<Rightarrow> string" where
  "munge_whitespace text =
     (let text = expandtabs 8 0 text
      in map (\<lambda>c. if whitespace c then CHR '' '' else c) text)"

text \<open>
  \<^verbatim>\<open>_split\<close> cuts the text at the matches of \<^verbatim>\<open>wordsep_re\<close>, keeps the matches (the
  pattern is one capturing group) and drops the empty strings between them:
  \<^verbatim>\<open>
  ( [ws]+                                        # any whitespace
  | (?<=[wp]) -{2,} (?=\w)                       # em-dash between words
  | [^ws]+? (?: -(?: (?<=[lt]{2}-) | (?<=[lt]-[lt]-)) (?= [lt] -? [lt])
              | (?=[ws]|\Z)
              | (?<=[wp]) (?=-{2,}\w) ) )        # word, possibly hyphenated
  \<close>
  Some alternative matches at every position, so the matches tile the text.
  \<open>wordsep_split behind s\<close> lists them for the text \<open>s\<close> that follows the already
  consumed text, whose characters are kept in \<open>behind\<close>, the last one first, for the
  look-behind assertions. \<open>dashes_then_word\<close> is \<^verbatim>\<open>-{2,}\w\<close> (only the whole run of hyphens
  can be followed by a word character), \<open>hyphen_break behind s\<close> is the first ending of
  a word, tried where \<open>s\<close> starts with the hyphen, and \<open>scan_word\<close> is the lazy
  \<^verbatim>\<open>[^ws]+?\<close>: it tries the three endings after one character, then after two, and so
  on; \<open>acc\<close> holds the characters of the word so far, the last one first.
\<close>

definition is_hyphen :: "char \<Rightarrow> bool" where
  "is_hyphen c = (c = CHR ''-'')"

definition dashes_then_word :: "string \<Rightarrow> bool" where
  "dashes_then_word s =
     (2 \<le> length (takeWhile is_hyphen s) \<and>
      (case dropWhile is_hyphen s of [] \<Rightarrow> False | x # _ \<Rightarrow> is_word x))"

definition behind_word_punct :: "string \<Rightarrow> bool" where
  "behind_word_punct behind = (case behind of [] \<Rightarrow> False | b # _ \<Rightarrow> word_punct b)"

definition hyphen_break :: "string \<Rightarrow> string \<Rightarrow> bool" where
  "hyphen_break behind s = (case s of
       [] \<Rightarrow> False
     | h # ahead \<Rightarrow>
         is_hyphen h \<and>
         ((case behind of b1 # b2 # _ \<Rightarrow> letter b1 \<and> letter b2 | _ \<Rightarrow> False) \<or>
          (case behind of b1 # b2 # b3 # _ \<Rightarrow> letter b1 \<and> is_hyphen b2 \<and> letter b3 | _ \<Rightarrow> False)) \<and>
         (case ahead of
            a1 # a2 # more \<Rightarrow>
              letter a1 \<and>
              ((is_hyphen a2 \<and> (case more of a3 # _ \<Rightarrow> letter a3 | [] \<Rightarrow> False)) \<or> letter a2)
          | _ \<Rightarrow> False))"

fun scan_word :: "string \<Rightarrow> string \<Rightarrow> string \<Rightarrow> string \<times> string" where
  "scan_word behind acc [] = (rev acc, [])"
| "scan_word behind acc (c # cs) =
     (if hyphen_break behind (c # cs) then (rev (c # acc), cs)
      else if whitespace c \<or> (behind_word_punct behind \<and> dashes_then_word (c # cs))
      then (rev acc, c # cs)
      else scan_word (c # behind) (c # acc) cs)"

lemma scan_word_length: "scan_word behind acc s = (tok, rest) \<Longrightarrow> length rest \<le> length s"
  by (induction behind acc s rule: scan_word.induct) (auto split: if_splits)

function wordsep_split :: "string \<Rightarrow> string \<Rightarrow> string list" where
  "wordsep_split behind [] = []"
| "wordsep_split behind (c # cs) =
     (if whitespace c then
        takeWhile whitespace (c # cs)
          # wordsep_split (rev (takeWhile whitespace (c # cs)) @ behind) (dropWhile whitespace cs)
      else if behind_word_punct behind \<and> dashes_then_word (c # cs) then
        takeWhile is_hyphen (c # cs)
          # wordsep_split (rev (takeWhile is_hyphen (c # cs)) @ behind) (dropWhile is_hyphen cs)
      else (case scan_word (c # behind) [c] cs of
              (tok, rest) \<Rightarrow> tok # wordsep_split (rev tok @ behind) rest))"
  by pat_completeness auto
termination
  by (relation "measure (\<lambda>(behind, s). length s)")
     (auto simp: less_Suc_eq_le length_dropWhile_le dest: scan_word_length [OF sym])

definition split_chunks :: "string \<Rightarrow> string list" where
  "split_chunks text = filter (\<lambda>c. c \<noteq> []) (wordsep_split [] (munge_whitespace text))"

text \<open>\<^verbatim>\<open>chunk.rfind(c, 0, stop)\<close>, with \<open>None\<close> for \<^verbatim>\<open>-1\<close>.\<close>

definition rfind :: "char \<Rightarrow> string \<Rightarrow> nat \<Rightarrow> nat option" where
  "rfind c s stop =
     (case filter (\<lambda>i. s ! i = c) (rev [0..<min stop (length s)]) of
        [] \<Rightarrow> None | i # _ \<Rightarrow> Some i)"

text \<open>
  \<^verbatim>\<open>_wrap_chunks\<close> reverses the list of chunks and pops from its end; here the list
  stays in text order and its head is \<^verbatim>\<open>chunks[-1]\<close>. \<^verbatim>\<open>_handle_long_word\<close> returns the
  new \<^verbatim>\<open>cur_line\<close> and the new chunks; it is only called on a non-empty list.
\<close>

fun handle_long_word :: "string list \<Rightarrow> string list \<Rightarrow> nat \<Rightarrow> nat \<Rightarrow> string list \<times> string list" where
  "handle_long_word [] cur_line cur_len width = (cur_line, [])"
| "handle_long_word (chunk # chunks) cur_line cur_len width =
     (let space_left = (if width < 1 then 1 else width - cur_len);
          end = (if length chunk > space_left then
                   (case rfind CHR ''-'' chunk space_left of
                      Some hyphen \<Rightarrow>
                        if hyphen > 0 \<and> (\<exists>c \<in> set (take hyphen chunk). c \<noteq> CHR ''-'')
                        then hyphen + 1 else space_left
                    | None \<Rightarrow> space_left)
                 else space_left)
      in (cur_line @ [take end chunk], drop end chunk # chunks))"

text \<open>The inner \<^verbatim>\<open>while chunks:\<close> loop, which moves chunks to the line while they fit.\<close>

fun fill_line :: "nat \<Rightarrow> string list \<Rightarrow> nat \<Rightarrow> string list \<Rightarrow> string list \<times> nat \<times> string list" where
  "fill_line width cur_line cur_len [] = (cur_line, cur_len, [])"
| "fill_line width cur_line cur_len (c # chunks) =
     (if cur_len + length c \<le> width
      then fill_line width (cur_line @ [c]) (cur_len + length c) chunks
      else (cur_line, cur_len, c # chunks))"

text \<open>
  One pass of the outer loop: \<open>started\<close> is the truth value of \<^verbatim>\<open>lines\<close>; the result is
  the final \<^verbatim>\<open>cur_line\<close> and the chunks left.
\<close>

definition next_line :: "nat \<Rightarrow> bool \<Rightarrow> string list \<Rightarrow> string list \<times> string list" where
  "next_line width started chunks =
     (let chunks = (if strip (hd chunks) = [] \<and> started then tl chunks else chunks);
          (cur_line, cur_len, chunks) = fill_line width [] 0 chunks;
          (cur_line, chunks) =
             (if chunks \<noteq> [] \<and> length (hd chunks) > width
              then handle_long_word chunks cur_line cur_len width
              else (cur_line, chunks));
          cur_line = (if cur_line \<noteq> [] \<and> strip (last cur_line) = []
                      then butlast cur_line else cur_line)
      in (cur_line, chunks))"

text \<open>Every pass consumes a chunk or a part of one, so the outer loop ends.\<close>

definition weight :: "string list \<Rightarrow> nat" where
  "weight chunks = sum_list (map length chunks) + length chunks"


lemma fill_line_result:
  "fill_line width cur_line cur_len chunks = (l, n, rest) \<Longrightarrow>
   \<exists>p. chunks = p @ rest \<and> l = cur_line @ p \<and> n = cur_len + sum_list (map length p) \<and>
       (rest \<noteq> [] \<longrightarrow> width < n + length (hd rest)) \<and> (cur_len \<le> width \<longrightarrow> n \<le> width)"
proof (induction width cur_line cur_len chunks rule: fill_line.induct)
  case (1 width cur_line cur_len)
  then show ?case by simp
next
  case (2 width cur_line cur_len c chunks)
  show ?case
  proof (cases "cur_len + length c \<le> width")
    case True
    with 2 obtain p where "chunks = p @ rest" "l = (cur_line @ [c]) @ p"
      "n = cur_len + length c + sum_list (map length p)"
      "rest \<noteq> [] \<longrightarrow> width < n + length (hd rest)" "n \<le> width"
      by auto
    then show ?thesis by (intro exI [of _ "c # p"]) simp
  next
    case False
    with 2 show ?thesis by (intro exI [of _ "[]"]) auto
  qed
qed

lemma handle_long_word_weight:
  assumes "handle_long_word (chunk # chunks) cur_line cur_len width = (l, rest)"
  shows "weight rest \<le> weight (chunk # chunks)"
    and "cur_len = 0 \<Longrightarrow> width < length chunk \<Longrightarrow> weight rest < weight (chunk # chunks)"
proof -
  define space_left where "space_left = (if width < 1 then 1 else width - cur_len)"
  define e where "e = (if length chunk > space_left then
                   (case rfind CHR ''-'' chunk space_left of
                      Some hyphen \<Rightarrow>
                        if hyphen > 0 \<and> (\<exists>c \<in> set (take hyphen chunk). c \<noteq> CHR ''-'')
                        then hyphen + 1 else space_left
                    | None \<Rightarrow> space_left)
                 else space_left)"
  have rest: "rest = drop e chunk # chunks"
    unfolding e_def space_left_def using assms by (auto simp: Let_def)
  then show "weight rest \<le> weight (chunk # chunks)"
    by (simp add: weight_def)
  assume "cur_len = 0" "width < length chunk"
  then have "0 < space_left" "0 < length chunk"
    by (auto simp: space_left_def)
  then have "0 < e"
    by (auto simp: e_def split: option.splits)
  with \<open>0 < length chunk\<close> rest show "weight rest < weight (chunk # chunks)"
    by (simp add: weight_def)
qed

lemma next_line_weight:
  assumes "chunks \<noteq> []" and "next_line width started chunks = (l, rest)"
  shows "weight rest < weight chunks"
proof -
  define chunks1 where "chunks1 = (if strip (hd chunks) = [] \<and> started then tl chunks else chunks)"
  obtain cl n chunks2 where fl: "fill_line width [] 0 chunks1 = (cl, n, chunks2)"
    by (metis prod_cases3)
  from fill_line_result [OF fl] obtain p where p: "chunks1 = p @ chunks2"
    "n = sum_list (map length p)" "chunks2 \<noteq> [] \<longrightarrow> width < n + length (hd chunks2)"
    by auto
  have w1: "weight chunks1 \<le> weight chunks"
    using assms(1) by (cases chunks) (auto simp: chunks1_def weight_def)
  have w1': "chunks1 \<noteq> chunks \<Longrightarrow> weight chunks1 < weight chunks"
    using assms(1) by (cases chunks) (auto simp: chunks1_def weight_def split: if_splits)
  have w2: "weight chunks2 \<le> weight chunks1" "p \<noteq> [] \<Longrightarrow> weight chunks2 < weight chunks1"
    using p(1) by (auto simp: weight_def)
  show ?thesis
  proof (cases "chunks2 \<noteq> [] \<and> length (hd chunks2) > width")
    case True
    then obtain c cs where c: "chunks2 = c # cs" "width < length c"
      by (cases chunks2) auto
    obtain l' where h: "handle_long_word (c # cs) cl n width = (l', rest)"
      using assms(2) fl True c
      by (auto simp: next_line_def chunks1_def Let_def split: prod.splits)
    show ?thesis
    proof (cases "p = [] \<and> chunks1 = chunks")
      case True
      with p have "n = 0" by simp
      from handle_long_word_weight(2) [OF h this c(2)] c w1 w2 show ?thesis by simp
    next
      case False
      with handle_long_word_weight(1) [OF h] c w1 w1' w2 show ?thesis by force
    qed
  next
    case False
    with assms(2) fl have rest: "rest = chunks2"
      by (auto simp: next_line_def chunks1_def Let_def split: prod.splits)
    have "p \<noteq> [] \<or> chunks1 \<noteq> chunks"
    proof (rule ccontr)
      assume "\<not> (p \<noteq> [] \<or> chunks1 \<noteq> chunks)"
      with p assms(1) have "chunks2 = chunks" "n = 0" "chunks2 \<noteq> []" by auto
      with p(3) False show False by simp
    qed
    with rest w1 w1' w2 show ?thesis by force
  qed
qed

function wrap_lines :: "nat \<Rightarrow> string list \<Rightarrow> string list \<Rightarrow> string list" where
  "wrap_lines width lines chunks =
     (if chunks = [] then lines
      else (case next_line width (lines \<noteq> []) chunks of
              (cur_line, chunks') \<Rightarrow>
                wrap_lines width
                  (if cur_line \<noteq> [] then lines @ [concat cur_line] else lines) chunks'))"
  by pat_completeness auto
termination
  by (relation "measure (\<lambda>(width, lines, chunks). weight chunks)")
     (auto dest: next_line_weight [OF _ sym])

declare wrap_lines.simps [simp del]

text \<open>\<^verbatim>\<open>_wrap_chunks\<close> raises on a width that is not positive.\<close>

definition wrap_chunks :: "nat \<Rightarrow> string list \<Rightarrow> error + string list" where
  "wrap_chunks width chunks =
     (if width \<le> 0 then Inl ValueError else Inr (wrap_lines width [] chunks))"

definition wrap :: "string \<Rightarrow> nat \<Rightarrow> error + string list" where
  "wrap text width = wrap_chunks width (split_chunks text)"

subsection \<open>\<^verbatim>\<open>_extract_tweets\<close>\<close>

text \<open>
  The generator is modelled by the list of the values it yields. \<open>collapse_whitespace\<close>
  is the first two statements of the method, the text that is given to \<^verbatim>\<open>textwrap.wrap\<close>.
\<close>

definition collapse_whitespace :: "string \<Rightarrow> string" where
  "collapse_whitespace text =
     (let text = strip (replace_char (CHR 0x0A) CHR '' '' (replace_char (CHR 0x09) CHR '' '' text))
      in re_sub_spaces isspace text)"

definition extract_tweets :: "string \<Rightarrow> error + string list" where
  "extract_tweets text =
     (let text = collapse_whitespace text
      in case wrap text TWEET_MAXLENGTH of
           Inl e \<Rightarrow> Inl e
         | Inr tweets \<Rightarrow> Inr (map fix_rt tweets))"

subsection \<open>The lines and the text\<close>

text \<open>
  The reconstruction of the spec: the chunks of the wrap step put together again, with
  the separators reinserted. On a normalized text the only character that
  \<^verbatim>\<open>textwrap\<close> leaves out is the single space at which it breaks a line; where it
  breaks a long word, or after a hyphen, nothing is left out.

  \<open>follows ls t\<close>: the text \<open>t\<close> is made of the lines \<open>ls\<close> in their order, each one
  possibly preceded by one space that is not in the line. \<open>rejoins ls t\<close>: the same, with
  nothing before the first line. So the lines give the text back when a space or nothing
  is put between two lines, and no other character of the text is outside the lines.
\<close>

fun follows :: "string list \<Rightarrow> string \<Rightarrow> bool" where
  "follows [] t = (t = [])"
| "follows (l # ls) t =
     ((take (length l) t = l \<and> follows ls (drop (length l) t)) \<or>
      (take 1 t = '' '' \<and> take (length l) (drop 1 t) = l \<and> follows ls (drop (length l + 1) t)))"

definition rejoins :: "string list \<Rightarrow> string \<Rightarrow> bool" where
  "rejoins ls t =
     (case ls of [] \<Rightarrow> t = [] | l # ls \<Rightarrow> take (length l) t = l \<and> follows ls (drop (length l) t))"

section \<open>The corpus store\<close>

text \<open>
  \<^verbatim>\<open>self.state\<close> is a dict from tweet id to \<^verbatim>\<open>Tweet\<close>. A \<^verbatim>\<open>twitter.Status\<close> is modelled by the
  two attributes the program reads, \<^verbatim>\<open>id\<close> and \<^verbatim>\<open>text\<close>.
\<close>

record status =
  status_id :: int
  status_text :: unicode

text \<open>
  Modelled from the spec: the class \<^verbatim>\<open>Tweet\<close> (module \<^verbatim>\<open>Tweet\<close>, not in the sources). The
  spec's stored post owns the original status and a lazily computed language code; the
  program builds it with \<^verbatim>\<open>Tweet(status)\<close> and reads \<^verbatim>\<open>tweet.status\<close>. The language tagger
  is a parameter of the model (\<open>get_language_code\<close> below).
\<close>

datatype tweet = Tweet (status: status)

text \<open>
  A dict keeps its items in insertion order: it is an association list, whose keys are
  distinct in every dict that Python can build. \<open>setitem\<close> is \<^verbatim>\<open>d[k] = v\<close>; \<open>delitem\<close> is
  \<^verbatim>\<open>del d[k]\<close> for a key of the dict (the only use, in \<^verbatim>\<open>_trim_state\<close>, deletes keys
  taken from the dict itself); \<open>map_of d k\<close> is \<^verbatim>\<open>d[k]\<close>, with \<open>None\<close> for a \<^verbatim>\<open>KeyError\<close>.
\<close>

type_synonym corpus = "(int \<times> tweet) list"

definition keys :: "corpus \<Rightarrow> int list" where
  "keys d = map fst d"

fun setitem :: "int \<Rightarrow> tweet \<Rightarrow> corpus \<Rightarrow> corpus" where
  "setitem k v [] = [(k, v)]"
| "setitem k v ((k', v') # d) = (if k' = k then (k, v) # d else (k', v') # setitem k v d)"

definition delitem :: "int \<Rightarrow> corpus \<Rightarrow> corpus" where
  "delitem k d = filter (\<lambda>(k', v). k' \<noteq> k) d"

text \<open>The slice \<^verbatim>\<open>xs[:stop]\<close>: a negative \<open>stop\<close> counts from the end, and the bounds are
  clamped to the list.\<close>

definition slice_to :: "'a list \<Rightarrow> int \<Rightarrow> 'a list" where
  "slice_to xs stop =
     (if stop < 0 then take (length xs - nat (- stop)) xs else take (nat stop) xs)"

definition trim_state :: "int \<Rightarrow> corpus \<Rightarrow> corpus" where
  "trim_state limit st =
     (if limit = 0 then st
      else fold delitem (slice_to (sort (keys st)) (- limit)) st)"

text \<open>
  The file system maps a path to what is stored there. Only two kinds of content matter:
  a pickle of a corpus, which \<^verbatim>\<open>pickle.load\<close> gives back as it was dumped, and
  anything else, on which \<^verbatim>\<open>pickle.load\<close> raises.
\<close>

datatype file_content = Pickle corpus | Other

type_synonym files = "string \<Rightarrow> file_content option"

record doaddoad =
  dadadodo_cmd :: string
  state :: corpus
  state_file :: string

text \<open>\<^verbatim>\<open>DoadDoad.__init__\<close>.\<close>

definition init :: "files \<Rightarrow> string \<Rightarrow> string \<Rightarrow> error + doaddoad" where
  "init fs sf dadadodo_bin =
     (if fs dadadodo_bin = None then Inl ValueError
      else Inr \<lparr>dadadodo_cmd = dadadodo_bin, state = [], state_file = sf\<rparr>)"

definition load_state :: "doaddoad \<Rightarrow> files \<Rightarrow> error + doaddoad" where
  "load_state d fs =
     (case fs (state_file d) of
        None \<Rightarrow> Inr d
      | Some (Pickle st) \<Rightarrow> Inr (d\<lparr>state := st\<rparr>)
      | Some Other \<Rightarrow> Inl UnpicklingError)"

definition save_state :: "int \<Rightarrow> doaddoad \<Rightarrow> files \<Rightarrow> doaddoad \<times> files" where
  "save_state limit d fs =
     (let d = d\<lparr>state := trim_state limit (state d)\<rparr>
      in (d, fs(state_file d \<mapsto> Pickle (state d))))"

text \<open>
  The social-network client is outside the program: \<^verbatim>\<open>GetUserTimeline\<close> is a parameter
  that returns the timeline or the \<^verbatim>\<open>TwitterError\<close> it raises, which \<^verbatim>\<open>add_timeline\<close> logs.
\<close>

datatype twitter_error = TwitterError string

record twitter =
  GetUserTimeline :: "int \<Rightarrow> nat \<Rightarrow> twitter_error + status list"

definition add_tweet :: "status \<Rightarrow> doaddoad \<Rightarrow> doaddoad" where
  "add_tweet tw d =
     (let t = Tweet tw in d\<lparr>state := setitem (status_id (status t)) t (state d)\<rparr>)"

text \<open>The \<^verbatim>\<open>for tweet in timeline\<close> loop of \<^verbatim>\<open>add_timeline\<close>.\<close>

fun add_timeline_loop :: "status list \<Rightarrow> doaddoad \<Rightarrow> doaddoad" where
  "add_timeline_loop [] d = d"
| "add_timeline_loop (tw # timeline) d =
     add_timeline_loop timeline
       (if status_id tw \<notin> set (keys (state d)) then add_tweet tw d else d)"

definition add_timeline :: "twitter \<Rightarrow> int \<Rightarrow> nat \<Rightarrow> doaddoad \<Rightarrow> doaddoad" where
  "add_timeline api user count d =
     (case GetUserTimeline api user count of
        Inr timeline \<Rightarrow> add_timeline_loop timeline d
      | Inl e \<Rightarrow> d)"

section \<open>Generating tweets\<close>

text \<open>
  What \<^verbatim>\<open>generate_tweets\<close> takes from outside the program: the list
  \<^verbatim>\<open>Tweet.language_codes\<close>, the language tagger \<^verbatim>\<open>Tweet.get_language_code\<close>, the permutation
  chosen by \<^verbatim>\<open>random.shuffle\<close> and the output of the dadadodo process for a given input.
\<close>

record env =
  language_codes :: "string list"
  get_language_code :: "tweet \<Rightarrow> string"
  shuffle :: "int list \<Rightarrow> int list"
  dadadodo :: "string \<Rightarrow> string"

text \<open>The truth value of \<^verbatim>\<open>language\<close>, which is \<^verbatim>\<open>None\<close> or a \<^verbatim>\<open>str\<close>: false for
  \<^verbatim>\<open>None\<close> and for the empty string.\<close>

definition truthy :: "string option \<Rightarrow> bool" where
  "truthy language = (case language of None \<Rightarrow> False | Some l \<Rightarrow> l \<noteq> [])"

text \<open>The loop of \<^verbatim>\<open>_dadadodo_input\<close> over the shuffled ids; the generator is consumed in
  full by \<^verbatim>\<open>join\<close>, so it is modelled by the list of the values it yields.\<close>

fun dadadodo_input_loop ::
  "env \<Rightarrow> string option \<Rightarrow> corpus \<Rightarrow> int list \<Rightarrow> error + string list" where
  "dadadodo_input_loop e language st [] = Inr []"
| "dadadodo_input_loop e language st (tweet_id # ids) =
     (case map_of st tweet_id of
        None \<Rightarrow> Inl KeyError
      | Some tweet \<Rightarrow>
          if truthy language \<and> language \<noteq> Some (get_language_code e tweet)
          then dadadodo_input_loop e language st ids
          else (case dadadodo_input_loop e language st ids of
                  Inl err \<Rightarrow> Inl err
                | Inr texts \<Rightarrow> Inr (sanitize (status_text (status tweet)) # texts)))"

definition dadadodo_input :: "env \<Rightarrow> string option \<Rightarrow> doaddoad \<Rightarrow> error + string list" where
  "dadadodo_input e language d =
     (let shuffled_ids = shuffle e (keys (state d))
      in dadadodo_input_loop e language (state d) shuffled_ids)"

text \<open>
  \<^verbatim>\<open>_run_dadadodo\<close> starts the process and decodes its output. The list \<open>calls\<close> records
  the inputs given to the processes started so far.
\<close>

definition run_dadadodo ::
  "env \<Rightarrow> string \<Rightarrow> string list \<Rightarrow> (error + string) \<times> string list" where
  "run_dadadodo e input_string calls =
     (let out = dadadodo e input_string
      in (if list_all is_ascii out then Inr out else Inl UnicodeDecodeError,
          calls @ [input_string]))"

text \<open>\<^verbatim>\<open>generate_tweets\<close> on the store \<open>d\<close>: the result or the exception, the store and
  the processes started afterwards.\<close>

definition generate_tweets ::
  "env \<Rightarrow> string option \<Rightarrow> doaddoad \<times> string list
     \<Rightarrow> (error + string list) \<times> doaddoad \<times> string list" where
  "generate_tweets e language s =
     (case s of (d, calls) \<Rightarrow>
        if truthy language \<and> the language \<notin> set (language_codes e)
        then (Inl DoadDoadError, d, calls)
        else (case dadadodo_input e language d of
                Inl err \<Rightarrow> (Inl err, d, calls)
              | Inr texts \<Rightarrow>
                  (let input_text = join '' '' texts
                   in case run_dadadodo e input_text calls of
                        (Inl err, calls') \<Rightarrow> (Inl err, d, calls')
                      | (Inr result, calls') \<Rightarrow> (extract_tweets result, d, calls'))))"

section \<open>Example values\<close>

definition example_tweet :: "int \<Rightarrow> string \<Rightarrow> tweet" where
  "example_tweet i s = Tweet \<lparr>status_id = i, status_text = ustr s\<rparr>"

definition example_store :: doaddoad where
  "example_store =
     \<lparr>dadadodo_cmd = ''/usr/bin/dadadodo'',
      state = [(30, example_tweet 30 ''third''), (10, example_tweet 10 ''first''),
               (20, example_tweet 20 ''second'')],
      state_file = ''doaddoad.state''\<rparr>"

definition example_env :: env where
  "example_env =
     \<lparr>language_codes = [''en'', ''it''],
      get_language_code = (\<lambda>t. ''en''),
      shuffle = (\<lambda>ids. ids),
      dadadodo = (\<lambda>input. input)\<rparr>"

definition example_api :: twitter where
  "example_api =
     \<lparr>GetUserTimeline = (\<lambda>user n.
        Inr [\<lparr>status_id = 10, status_text = ustr ''again''\<rparr>,
             \<lparr>status_id = 40, status_text = ustr ''fourth''\<rparr>])\<rparr>"

definition example_seen_api :: twitter where
  "example_seen_api =
     \<lparr>GetUserTimeline = (\<lambda>user n. Inr [\<lparr>status_id = 10, status_text = ustr ''again''\<rparr>])\<rparr>"

text \<open>A blob of 188 characters with a tab, line breaks and runs of spaces; it is wrapped to
  two lines.\<close>

definition example_blob :: string where
  "example_blob =
     ''  the quick brown fox'' @ [CHR 0x09] @ ''jumps over the lazy dog'' @ [CHR 0x0A, CHR 0x0A] @
     ''and keeps running through the well-known forest until the evening comes,   '' @
     ''when it finally rests under an old oak-tree near the river bank   ''"

section \<open>The sanitizer and the retweet repair on the spec's examples\<close>

text \<open>
  C7: sanitizing the stored-post text \<^verbatim>\<open>check http://example.com/x out\<close> yields the bytes
  \<^verbatim>\<open>check  out\<close>, with the two spaces that surrounded the link: the text is encoded to
  ASCII, its whitespace runs are collapsed, and only then is the link deleted.
\<close>

theorem sanitize_link_stripping:
  "sanitize (ustr ''check http://example.com/x out'') = ''check  out''"
  by code_simp

text \<open>
  C8: the retweet repair turns the chunk \<^verbatim>\<open>hello world RT @bob more text\<close> into
  \<^verbatim>\<open>RT @bob hello world more text\<close>.
\<close>

theorem fix_rt_example:
  "fix_rt ''hello world RT @bob more text'' = ''RT @bob hello world more text''"
  by code_simp

text \<open>
  C9: the retweet repair asks for no word boundary before the marker. In \<^verbatim>\<open>start here\<close>
  the letters \<^verbatim>\<open>rt\<close> only end an ordinary word, and the chunk is still rewritten, to
  \<^verbatim>\<open>RT @here sta\<close>.
\<close>

theorem fix_rt_inside_word:
  "fix_rt ''start here'' = ''RT @here sta'' \<and> fix_rt ''start here'' \<noteq> ''start here''"
  by code_simp

section \<open>Trimming and persistence\<close>

lemma fold_delitem: "fold delitem ks st = filter (\<lambda>(k, v). k \<notin> set ks) st"
proof (induction ks arbitrary: st)
  case Nil
  then show ?case by simp
next
  case (Cons k ks)
  have "fold delitem (k # ks) st = fold delitem ks (delitem k st)"
    by simp
  also have "\<dots> = filter (\<lambda>(k', v). k' \<notin> set ks) (delitem k st)"
    by (rule Cons.IH)
  also have "\<dots> = filter (\<lambda>(k', v). k' \<notin> set (k # ks)) st"
    by (simp add: delitem_def case_prod_unfold conj_commute)
  finally show ?case .
qed

lemma keys_filter: "keys (filter (\<lambda>(k, v). P k) st) = filter P (keys st)"
  by (induction st) (auto simp: keys_def)

lemma length_filter_not_in:
  assumes "distinct xs" and "distinct ks" and "set ks \<subseteq> set xs"
  shows "length (filter (\<lambda>k. k \<notin> set ks) xs) = length xs - length ks"
proof -
  have "distinct (filter (\<lambda>k. k \<notin> set ks) xs)"
    using assms(1) by simp
  then have "length (filter (\<lambda>k. k \<notin> set ks) xs) = card (set xs - set ks)"
    by (metis distinct_card set_filter set_diff_eq)
  also have "\<dots> = card (set xs) - card (set ks)"
    using assms(3) by (simp add: card_Diff_subset)
  finally show ?thesis
    using assms(1,2) by (simp add: distinct_card)
qed

lemma trim_state_keep:
  assumes "0 < limit"
  shows "trim_state limit st =
         filter (\<lambda>(k, v). k \<notin> set (take (length st - nat limit) (sort (keys st)))) st"
  using assms by (simp add: trim_state_def slice_to_def fold_delitem keys_def)

text \<open>
  C2: for a limit \<open>L > 0\<close>, after \<^verbatim>\<open>save_state(L)\<close> the corpus holds exactly
  \<open>min L (original size)\<close> entries, all of them entries of the original corpus, and every
  id that was deleted is smaller than every id that was kept; for \<open>L = 0\<close> the corpus is
  unchanged. The keys of a dict are distinct.
\<close>

theorem trim_invariant:
  assumes "distinct (keys (state d))"
  shows "(0 < limit \<longrightarrow>
            length (state (fst (save_state limit d fs))) = min (nat limit) (length (state d)) \<and>
            set (state (fst (save_state limit d fs))) \<subseteq> set (state d) \<and>
            (\<forall>k \<in> set (keys (state (fst (save_state limit d fs)))).
               \<forall>k' \<in> set (keys (state d)) - set (keys (state (fst (save_state limit d fs)))).
                 k' < k)) \<and>
         (limit = 0 \<longrightarrow> state (fst (save_state limit d fs)) = state d)"
proof (intro conjI impI)
  assume "limit = 0"
  then show "state (fst (save_state limit d fs)) = state d"
    by (simp add: save_state_def trim_state_def Let_def)
next
  assume pos: "0 < limit"
  define st where "st = state d"
  define n where "n = length st - nat limit"
  define sorted_keys where "sorted_keys = sort (keys st)"
  define ks where "ks = take n sorted_keys"
  have st': "state (fst (save_state limit d fs)) = filter (\<lambda>(k, v). k \<notin> set ks) st"
    using pos
    by (simp add: save_state_def Let_def trim_state_keep st_def ks_def n_def sorted_keys_def)
  have dist: "distinct sorted_keys" "sorted sorted_keys" "set sorted_keys = set (keys st)"
    "length sorted_keys = length st"
    using assms by (simp_all add: sorted_keys_def st_def keys_def)
  have dks: "distinct ks" "set ks \<subseteq> set (keys st)" "length ks = n"
    using dist by (auto simp: ks_def n_def dest: in_set_takeD)
  have "length (filter (\<lambda>(k, v). k \<notin> set ks) st)
          = length (keys (filter (\<lambda>(k, v). k \<notin> set ks) st))"
    by (simp add: keys_def)
  also have "\<dots> = length (keys st) - length ks"
    using assms dks by (simp add: keys_filter length_filter_not_in st_def)
  also have "\<dots> = min (nat limit) (length st)"
    using dks(3) by (simp add: keys_def n_def)
  finally show "length (state (fst (save_state limit d fs))) = min (nat limit) (length (state d))"
    by (simp add: st' st_def)
  show "set (state (fst (save_state limit d fs))) \<subseteq> set (state d)"
    by (auto simp: st' st_def)
  show "\<forall>k \<in> set (keys (state (fst (save_state limit d fs)))).
          \<forall>k' \<in> set (keys (state d)) - set (keys (state (fst (save_state limit d fs)))). k' < k"
  proof (intro ballI)
    fix k k'
    assume "k \<in> set (keys (state (fst (save_state limit d fs))))"
      and "k' \<in> set (keys (state d)) - set (keys (state (fst (save_state limit d fs))))"
    then have k: "k \<in> set (keys st)" "k \<notin> set ks" and k': "k' \<in> set ks"
      by (auto simp: st' keys_filter st_def)
    have parts: "sorted_keys = ks @ drop n sorted_keys"
      by (simp add: ks_def)
    from k dist(3) parts have "k \<in> set (drop n sorted_keys)"
      by (metis Un_iff set_append)
    with k' dist(2) parts have "k' \<le> k"
      by (metis sorted_append)
    moreover from k k' have "k' \<noteq> k" by auto
    ultimately show "k' < k" by simp
  qed
qed

theorem trim_invariant_witness:
  "distinct (keys (state example_store)) \<and>
   length (state (fst (save_state 2 example_store Map.empty))) = 2 \<and>
   set (state (fst (save_state 2 example_store Map.empty))) \<subseteq> set (state example_store) \<and>
   state (fst (save_state 0 example_store Map.empty)) = state example_store"
proof -
  have d: "distinct (keys (state example_store))"
    by (simp add: example_store_def keys_def)
  have l: "min (nat 2) (length (state example_store)) = 2"
    by (simp add: example_store_def)
  from trim_invariant [OF d, of 2 Map.empty] trim_invariant [OF d, of 0 Map.empty] d l
  show ?thesis by simp
qed

text \<open>
  C4: \<^verbatim>\<open>save_state(limit)\<close> followed by \<^verbatim>\<open>load_state()\<close> in a fresh store on the same state
  file gives the fresh store the trimmed corpus that the saving store holds after the
  save.
\<close>

theorem save_load_round_trip:
  assumes "save_state limit d fs = (d', fs')"
    and "init fs' (state_file d) dadadodo_bin = Inr fresh"
  shows "load_state fresh fs' = Inr (fresh\<lparr>state := state d'\<rparr>) \<and>
         state d' = trim_state limit (state d)"
  using assms by (auto simp: load_state_def save_state_def init_def Let_def split: if_splits)

theorem save_load_round_trip_witness:
  "save_state 2 example_store [''/usr/bin/dadadodo'' \<mapsto> Other]
     = (example_store\<lparr>state := trim_state 2 (state example_store)\<rparr>,
        [''/usr/bin/dadadodo'' \<mapsto> Other,
         ''doaddoad.state'' \<mapsto> Pickle (trim_state 2 (state example_store))]) \<and>
   init [''/usr/bin/dadadodo'' \<mapsto> Other,
         ''doaddoad.state'' \<mapsto> Pickle (trim_state 2 (state example_store))]
        (state_file example_store) ''/usr/bin/dadadodo''
     = Inr \<lparr>dadadodo_cmd = ''/usr/bin/dadadodo'', state = [], state_file = ''doaddoad.state''\<rparr> \<and>
   load_state \<lparr>dadadodo_cmd = ''/usr/bin/dadadodo'', state = [], state_file = ''doaddoad.state''\<rparr>
        [''/usr/bin/dadadodo'' \<mapsto> Other,
         ''doaddoad.state'' \<mapsto> Pickle (trim_state 2 (state example_store))]
     = Inr \<lparr>dadadodo_cmd = ''/usr/bin/dadadodo'',
            state = trim_state 2 (state example_store), state_file = ''doaddoad.state''\<rparr>"
proof -
  let ?fs = "[''/usr/bin/dadadodo'' \<mapsto> Other]"
  let ?fs' = "[''/usr/bin/dadadodo'' \<mapsto> Other,
               ''doaddoad.state'' \<mapsto> Pickle (trim_state 2 (state example_store))]"
  let ?fresh = "\<lparr>dadadodo_cmd = ''/usr/bin/dadadodo'', state = [], state_file = ''doaddoad.state''\<rparr>"
  have s: "save_state 2 example_store ?fs
             = (example_store\<lparr>state := trim_state 2 (state example_store)\<rparr>, ?fs')"
    by (simp add: save_state_def Let_def example_store_def)
  have i: "init ?fs' (state_file example_store) ''/usr/bin/dadadodo'' = Inr ?fresh"
    by (simp add: init_def example_store_def)
  from save_load_round_trip [OF s i] s i show ?thesis by simp
qed

text \<open>
  C10: when the state file does not exist, \<^verbatim>\<open>load_state()\<close> returns without raising and
  leaves the store, and so its corpus, as it was; a populated corpus is not reset.
\<close>

theorem load_state_missing_file:
  assumes "fs (state_file d) = None"
  shows "load_state d fs = Inr d"
  using assms by (simp add: load_state_def)

theorem load_state_missing_file_witness:
  "Map.empty (state_file example_store) = None \<and>
   load_state example_store Map.empty = Inr example_store \<and>
   length (state example_store) = 3"
  using load_state_missing_file [of Map.empty example_store]
  by (simp add: example_store_def)

section \<open>Insertion\<close>

lemma keys_setitem_list:
  "keys (setitem k v st) = (if k \<in> set (keys st) then keys st else keys st @ [k])"
  by (induction st) (force simp: keys_def)+

lemma keys_setitem: "set (keys (setitem k v st)) = insert k (set (keys st))"
  by (auto simp: keys_setitem_list)

lemma map_of_setitem: "map_of (setitem k v st) k' = (if k' = k then Some v else map_of st k')"
  by (induction st) auto

lemma add_timeline_loop_present:
  "\<forall>tw \<in> set timeline. status_id tw \<in> set (keys (state d)) \<Longrightarrow> add_timeline_loop timeline d = d"
  by (induction timeline arbitrary: d) auto

lemma add_timeline_loop_keeps:
  "k \<in> set (keys (state d)) \<Longrightarrow>
   map_of (state (add_timeline_loop timeline d)) k = map_of (state d) k"
proof (induction timeline arbitrary: d)
  case Nil
  then show ?case by simp
next
  case (Cons tw timeline)
  let ?d = "if status_id tw \<notin> set (keys (state d)) then add_tweet tw d else d"
  have "k \<in> set (keys (state ?d))"
    using Cons.prems by (simp add: add_tweet_def keys_setitem)
  then have "map_of (state (add_timeline_loop timeline ?d)) k = map_of (state ?d) k"
    by (rule Cons.IH)
  also have "\<dots> = map_of (state d) k"
    using Cons.prems by (auto simp: add_tweet_def map_of_setitem)
  finally show ?case by simp
qed

lemma add_timeline_loop_keys:
  "set (keys (state (add_timeline_loop timeline d)))
     = set (keys (state d)) \<union> status_id ` set timeline"
  by (induction timeline arbitrary: d) (auto simp: add_tweet_def keys_setitem)

text \<open>
  C5: insertion is idempotent with respect to the post id. When every post of the
  fetched timeline has an id that is already a key, \<^verbatim>\<open>add_timeline\<close> leaves the store
  unchanged; in any case the entry of a key that was present is left as it was (a post is
  inserted only under an id that is not yet a key), and adding the same timeline a second
  time changes nothing.
\<close>

theorem add_timeline_idempotent:
  "(GetUserTimeline api user n = Inr timeline \<and>
      (\<forall>tw \<in> set timeline. status_id tw \<in> set (keys (state d)))
      \<longrightarrow> add_timeline api user n d = d) \<and>
   (\<forall>k \<in> set (keys (state d)).
      map_of (state (add_timeline api user n d)) k = map_of (state d) k) \<and>
   add_timeline api user n (add_timeline api user n d) = add_timeline api user n d"
proof (cases "GetUserTimeline api user n")
  case (Inl e)
  then show ?thesis by (simp add: add_timeline_def)
next
  case (Inr timeline')
  have "add_timeline_loop timeline' (add_timeline_loop timeline' d) = add_timeline_loop timeline' d"
    by (rule add_timeline_loop_present) (simp add: add_timeline_loop_keys)
  with Inr show ?thesis
    by (auto simp: add_timeline_def add_timeline_loop_present add_timeline_loop_keeps)
qed

theorem add_timeline_idempotent_witness:
  "GetUserTimeline example_seen_api 7 20 = Inr [\<lparr>status_id = 10, status_text = ustr ''again''\<rparr>] \<and>
   status_id \<lparr>status_id = 10, status_text = ustr ''again''\<rparr> \<in> set (keys (state example_store)) \<and>
   add_timeline example_seen_api 7 20 example_store = example_store \<and>
   20 \<in> set (keys (state example_store)) \<and>
   map_of (state (add_timeline example_api 7 20 example_store)) 20
     = map_of (state example_store) 20 \<and>
   add_timeline example_api 7 20 (add_timeline example_api 7 20 example_store)
     = add_timeline example_api 7 20 example_store"
proof -
  have t: "GetUserTimeline example_seen_api 7 20
             = Inr [\<lparr>status_id = 10, status_text = ustr ''again''\<rparr>]"
    by (simp add: example_seen_api_def)
  have k: "status_id \<lparr>status_id = 10, status_text = ustr ''again''\<rparr> \<in> set (keys (state example_store))"
    "20 \<in> set (keys (state example_store))"
    by (simp_all add: example_store_def keys_def)
  from add_timeline_idempotent
         [of example_seen_api 7 20 "[\<lparr>status_id = 10, status_text = ustr ''again''\<rparr>]" example_store]
       add_timeline_idempotent [of example_api 7 20 "[]" example_store] t k
  show ?thesis by simp
qed

section \<open>The language filter\<close>

lemma dadadodo_input_loop_empty_language:
  "dadadodo_input_loop e (Some []) st ids = dadadodo_input_loop e None st ids"
  by (induction ids) (simp_all add: truthy_def split: option.splits)

lemma dadadodo_input_empty_language:
  "dadadodo_input e (Some []) d = dadadodo_input e None d"
  by (simp add: dadadodo_input_def dadadodo_input_loop_empty_language)

text \<open>
  C6, as amended: for every language filter that is a non-empty string and is not one of
  the detectable language codes, \<^verbatim>\<open>generate_tweets\<close> raises \<^verbatim>\<open>DoadDoadError\<close>; no
  dadadodo process has been started and the store is as it was. With the empty string as
  the filter, \<^verbatim>\<open>generate_tweets\<close> does in every store and every environment what it does
  with no filter (\<^verbatim>\<open>None\<close>).
\<close>

theorem generate_tweets_language_check:
  "(l \<noteq> [] \<and> l \<notin> set (language_codes e) \<longrightarrow>
      generate_tweets e (Some l) (d, calls) = (Inl DoadDoadError, d, calls)) \<and>
   generate_tweets e (Some []) s = generate_tweets e None s"
  by (simp add: generate_tweets_def truthy_def dadadodo_input_empty_language)

theorem generate_tweets_language_check_witness:
  "''xx'' \<noteq> [] \<and> ''xx'' \<notin> set (language_codes example_env) \<and>
   generate_tweets example_env (Some ''xx'') (example_store, [])
     = (Inl DoadDoadError, example_store, []) \<and>
   generate_tweets example_env (Some []) (example_store, [])
     = generate_tweets example_env None (example_store, [])"
  using generate_tweets_language_check
          [of "''xx''" example_env example_store "[]" "(example_store, [])"]
  by (simp add: example_env_def)

text \<open>
  The empty string is not a language code, and it is a false value: the guard
  \<^verbatim>\<open>if language and ...\<close> lets it pass, the filter is off and dadadodo runs on the whole
  corpus.
\<close>

theorem generate_tweets_empty_language:
  "[] \<notin> set (language_codes example_env) \<and>
   generate_tweets example_env (Some []) (example_store, [])
     = (Inr [''third first second''], example_store, [''third first second''])"
  by code_simp

section \<open>The length of a tweet\<close>

text \<open>
  C1 says that every message that \<^verbatim>\<open>_extract_tweets\<close> yields has at most 140 characters.
  The program does not keep to it: the text is wrapped to lines of at most 140
  characters first and \<^verbatim>\<open>_fix_rt\<close> rewrites each line afterwards. A line of 140
  characters that ends in \<^verbatim>\<open>rt here\<close> is rewritten to \<^verbatim>\<open>RT @here\<close>, a space and the rest of
  the line, which is 142 characters long.
\<close>

theorem extract_tweets_over_length:
  "extract_tweets (replicate 133 CHR ''a'' @ ''rt here'')
     = Inr [''RT @here '' @ replicate 133 CHR ''a''] \<and>
   length (replicate 133 CHR ''a'' @ ''rt here'') = TWEET_MAXLENGTH \<and>
   TWEET_MAXLENGTH < length (''RT @here '' @ replicate 133 CHR ''a'')"
  by code_simp

section \<open>Wrapping: the length bound and the reconstruction of the text\<close>

declare wordsep_split.simps [simp del]

subsection \<open>The collapsed text\<close>

text \<open>
  \<open>spaced s\<close>: the only whitespace of \<open>s\<close> is the plain space, and every space is
  followed by a character that is not whitespace.
\<close>

fun spaced :: "string \<Rightarrow> bool" where
  "spaced [] = True"
| "spaced [c] = (\<not> isspace c)"
| "spaced (c # d # s) =
     ((c = CHR '' '' \<or> \<not> isspace c) \<and> (c = CHR '' '' \<longrightarrow> \<not> isspace d) \<and> spaced (d # s))"

lemma isspace_space [simp]: "isspace CHR '' ''"
  by (simp add: isspace_def)

lemma whitespace_isspace: "whitespace c \<Longrightarrow> isspace c"
  by (auto simp: whitespace_def isspace_def Let_def)

lemma tab_isspace: "isspace (CHR 0x09)"
  by (simp add: isspace_def)

lemma spaced_Cons:
  "spaced (c # s) \<longleftrightarrow>
     (if c = CHR '' '' then s \<noteq> [] \<and> \<not> isspace (hd s) \<and> spaced s else \<not> isspace c \<and> spaced s)"
  by (cases s) auto

lemma spaced_append: "spaced (a @ b) \<Longrightarrow> spaced b"
  by (induction a) (auto simp: spaced_Cons split: if_splits)

lemma spaced_member: "spaced s \<Longrightarrow> x \<in> set s \<Longrightarrow> isspace x \<Longrightarrow> x = CHR '' ''"
proof (induction s)
  case Nil
  then show ?case by simp
next
  case (Cons c s)
  from Cons.prems(1) have c: "c = CHR '' '' \<or> \<not> isspace c" and s: "spaced s"
    by (cases "c = CHR '' ''"; simp add: spaced_Cons)+
  show ?case
  proof (cases "x = c")
    case True
    with c Cons.prems(3) show ?thesis by blast
  next
    case False
    with Cons.prems(2) have "x \<in> set s" by simp
    with Cons.IH s Cons.prems(3) show ?thesis by blast
  qed
qed

lemma re_sub_spaces_hd:
  "s \<noteq> [] \<Longrightarrow> \<not> sp (hd s) \<Longrightarrow> re_sub_spaces sp s \<noteq> [] \<and> hd (re_sub_spaces sp s) = hd s"
  by (cases s) auto

lemma last_dropWhile: "dropWhile P xs \<noteq> [] \<Longrightarrow> last (dropWhile P xs) = last xs"
  by (induction xs) (auto split: if_splits)

lemma spaced_re_sub_spaces:
  "s = [] \<or> \<not> isspace (last s) \<Longrightarrow> spaced (re_sub_spaces isspace s)"
proof (induction "isspace" s rule: re_sub_spaces.induct)
  case 1
  then show ?case by simp
next
  case (2 c cs)
  show ?case
  proof (cases "isspace c")
    case True
    let ?r = "dropWhile isspace cs"
    from 2(3) True have "\<exists>x \<in> set cs. \<not> isspace x"
      by (cases cs rule: rev_cases) (auto split: if_splits)
    then have ne: "?r \<noteq> []"
      by (simp add: dropWhile_eq_Nil_conv)
    then have hd: "\<not> isspace (hd ?r)"
      by (rule hd_dropWhile)
    from ne 2(3) have "\<not> isspace (last ?r)"
      using last_dropWhile [OF ne] by (auto split: if_splits)
    with 2(1) True have "spaced (re_sub_spaces isspace ?r)"
      by simp
    with True ne hd re_sub_spaces_hd [of "dropWhile isspace cs" isspace, OF ne hd] show ?thesis
      by (simp add: spaced_Cons)
  next
    case False
    from 2(3) have "cs = [] \<or> \<not> isspace (last cs)"
      by (auto split: if_splits)
    with 2(2) False have "spaced (re_sub_spaces isspace cs)"
      by simp
    with False show ?thesis
      by (auto simp: spaced_Cons)
  qed
qed

lemma rstrip_prefix: "\<exists>z. y = rstrip y @ z"
proof -
  have "rev (takeWhile isspace (rev y) @ dropWhile isspace (rev y)) = rev (rev y)"
    by (simp only: takeWhile_dropWhile_id)
  then have "rstrip y @ rev (takeWhile isspace (rev y)) = y"
    by (simp only: rev_append rev_rev_ident rstrip_def)
  then show ?thesis by metis
qed

lemma strip_ends:
  assumes "strip x \<noteq> []"
  shows "\<not> isspace (hd (strip x))" and "\<not> isspace (last (strip x))"
proof -
  let ?l = "lstrip x"
  from assms have r: "rstrip ?l \<noteq> []"
    by (simp add: strip_def)
  obtain z where z: "?l = rstrip ?l @ z"
    using rstrip_prefix by blast
  with r have l: "?l \<noteq> []" and "hd ?l = hd (rstrip ?l)"
    by (metis append_is_Nil_conv, metis hd_append2)
  moreover from l have "\<not> isspace (hd ?l)"
    unfolding lstrip_def by (rule hd_dropWhile)
  ultimately show "\<not> isspace (hd (strip x))"
    by (simp add: strip_def)
  from r have "dropWhile isspace (rev ?l) \<noteq> []"
    by (simp add: rstrip_def)
  then have "\<not> isspace (hd (dropWhile isspace (rev ?l)))"
    by (rule hd_dropWhile)
  with r show "\<not> isspace (last (strip x))"
    by (simp add: strip_def rstrip_def last_rev)
qed

lemma collapse_whitespace_spaced:
  "spaced (collapse_whitespace text) \<and>
   (collapse_whitespace text = [] \<or> \<not> isspace (hd (collapse_whitespace text)))"
proof -
  define x where "x = replace_char (CHR 0x0A) CHR '' '' (replace_char (CHR 0x09) CHR '' '' text)"
  have c: "collapse_whitespace text = re_sub_spaces isspace (strip x)"
    by (simp add: collapse_whitespace_def x_def)
  show ?thesis
  proof (cases "strip x = []")
    case True
    with c show ?thesis by simp
  next
    case False
    from strip_ends [OF False] False c show ?thesis
      using re_sub_spaces_hd [of "strip x" isspace, OF False] spaced_re_sub_spaces [of "strip x"]
      by simp
  qed
qed

subsection \<open>The chunks of a collapsed text\<close>

text \<open>
  \<open>solid c\<close>: a chunk that is a word, with no whitespace in it. \<open>chunks_ok cs\<close>: every
  chunk is a single space or solid, and every space is followed by a solid chunk.
\<close>

definition solid :: "string \<Rightarrow> bool" where
  "solid c = (c \<noteq> [] \<and> (\<forall>x \<in> set c. \<not> isspace x))"

fun chunks_ok :: "string list \<Rightarrow> bool" where
  "chunks_ok [] = True"
| "chunks_ok [c] = solid c"
| "chunks_ok (c # d # cs) =
     ((c = '' '' \<or> solid c) \<and> (c = '' '' \<longrightarrow> solid d) \<and> chunks_ok (d # cs))"

lemma not_solid_space [simp]: "\<not> solid '' ''"
  by (simp add: solid_def)

lemma chunks_ok_Cons:
  "chunks_ok (c # cs) \<longleftrightarrow>
     (if c = '' '' then cs \<noteq> [] \<and> solid (hd cs) \<and> chunks_ok cs else solid c \<and> chunks_ok cs)"
  by (cases cs) auto

lemma chunks_ok_append: "chunks_ok (a @ b) \<Longrightarrow> chunks_ok b"
  by (induction a) (auto simp: chunks_ok_Cons split: if_splits)

lemma chunks_ok_member: "chunks_ok cs \<Longrightarrow> c \<in> set cs \<Longrightarrow> c = '' '' \<or> solid c"
  by (induction cs) (auto simp: chunks_ok_Cons split: if_splits)

lemma hyphen_not_whitespace: "is_hyphen c \<Longrightarrow> \<not> whitespace c"
  by (simp add: is_hyphen_def whitespace_def)

lemma hyphen_not_isspace: "is_hyphen c \<Longrightarrow> \<not> isspace c"
  by (simp add: is_hyphen_def isspace_def)

lemma hyphen_break_hd: "hyphen_break behind (c # cs) \<Longrightarrow> is_hyphen c"
  by (simp add: hyphen_break_def)

lemma dashes_then_word_hd: "dashes_then_word (c # cs) \<Longrightarrow> is_hyphen c"
  by (auto simp: dashes_then_word_def split: if_splits)

lemma scan_word_result:
  "scan_word behind acc s = (tok, rest) \<Longrightarrow>
   \<exists>k. tok = rev acc @ take k s \<and> rest = drop k s \<and> (\<forall>x \<in> set (take k s). \<not> whitespace x)"
proof (induction behind acc s rule: scan_word.induct)
  case (1 behind acc)
  then show ?case by simp
next
  case (2 behind acc c cs)
  show ?case
  proof (cases "hyphen_break behind (c # cs)")
    case True
    with 2(2) have "tok = rev acc @ take 1 (c # cs)" "rest = drop 1 (c # cs)"
      by auto
    moreover from True have "\<not> whitespace c"
      by (blast dest: hyphen_break_hd hyphen_not_whitespace)
    ultimately show ?thesis
      by (intro exI [of _ 1]) simp
  next
    case False
    show ?thesis
    proof (cases "whitespace c \<or> (behind_word_punct behind \<and> dashes_then_word (c # cs))")
      case True
      with False 2(2) show ?thesis
        by (intro exI [of _ 0]) auto
    next
      case stop: False
      with False 2 obtain k where "tok = rev (c # acc) @ take k cs" "rest = drop k cs"
        "\<forall>x \<in> set (take k cs). \<not> whitespace x"
        by auto
      with stop show ?thesis
        by (intro exI [of _ "Suc k"]) auto
    qed
  qed
qed

lemma wordsep_split_space:
  "whitespace c \<Longrightarrow>
   wordsep_split behind (c # cs) =
     takeWhile whitespace (c # cs)
       # wordsep_split (rev (takeWhile whitespace (c # cs)) @ behind) (dropWhile whitespace cs)"
  by (subst wordsep_split.simps) simp

lemma wordsep_split_dash:
  "\<not> whitespace c \<Longrightarrow> behind_word_punct behind \<and> dashes_then_word (c # cs) \<Longrightarrow>
   wordsep_split behind (c # cs) =
     takeWhile is_hyphen (c # cs)
       # wordsep_split (rev (takeWhile is_hyphen (c # cs)) @ behind) (dropWhile is_hyphen cs)"
  by (subst wordsep_split.simps) simp

lemma wordsep_split_word:
  "\<not> whitespace c \<Longrightarrow> \<not> (behind_word_punct behind \<and> dashes_then_word (c # cs)) \<Longrightarrow>
   scan_word (c # behind) [c] cs = (tok, rest) \<Longrightarrow>
   wordsep_split behind (c # cs) = tok # wordsep_split (rev tok @ behind) rest"
  by (subst wordsep_split.simps) (simp only: if_False prod.case)

lemma concat_wordsep_split: "concat (wordsep_split behind s) = s"
proof (induction behind s rule: wordsep_split.induct)
  case (1 behind)
  then show ?case by (simp add: wordsep_split.simps(1))
next
  case (2 behind c cs)
  show ?case
  proof (cases "whitespace c")
    case True
    have "takeWhile whitespace (c # cs) @ dropWhile whitespace cs = c # cs"
      using True by simp
    with 2(1) [OF True] show ?thesis
      by (simp only: wordsep_split_space [OF True] concat.simps)
  next
    case False
    show ?thesis
    proof (cases "behind_word_punct behind \<and> dashes_then_word (c # cs)")
      case True
      then have "is_hyphen c" by (blast dest: dashes_then_word_hd)
      then have "takeWhile is_hyphen (c # cs) @ dropWhile is_hyphen cs = c # cs"
        by simp
      with 2(2) [OF False True] show ?thesis
        by (simp only: wordsep_split_dash [OF False True] concat.simps)
    next
      case word: False
      obtain tok rest where sw: "scan_word (c # behind) [c] cs = (tok, rest)"
        by (cases "scan_word (c # behind) [c] cs")
      from scan_word_result [OF sw] have "tok @ rest = c # cs"
        by auto
      with 2(3) [OF False word sw [symmetric]] show ?thesis
        by (simp only: wordsep_split_word [OF False word sw] concat.simps)
    qed
  qed
qed

lemma wordsep_split_not_Nil: "s \<noteq> [] \<Longrightarrow> wordsep_split behind s \<noteq> []"
proof (cases s)
  case Nil
  then show "s \<noteq> [] \<Longrightarrow> ?thesis" by simp
next
  case (Cons c cs)
  obtain tok rest where sw: "scan_word (c # behind) [c] cs = (tok, rest)"
    by (cases "scan_word (c # behind) [c] cs")
  show ?thesis
    unfolding Cons
    using wordsep_split_space [of c behind cs] wordsep_split_dash [of c behind cs]
      wordsep_split_word [OF _ _ sw]
    by (cases "whitespace c"; cases "behind_word_punct behind \<and> dashes_then_word (c # cs)")
       (simp_all only: list.distinct not_False_eq_True)
qed

lemma chunks_ok_first:
  assumes "chunks_ok (wordsep_split behind s)" and "s \<noteq> []" and "\<not> isspace (hd s)"
  shows "wordsep_split behind s \<noteq> [] \<and> solid (hd (wordsep_split behind s))"
proof -
  obtain t ts where ts: "wordsep_split behind s = t # ts"
    using wordsep_split_not_Nil [OF assms(2)] by (cases "wordsep_split behind s") auto
  have "t \<noteq> '' ''"
  proof
    assume "t = '' ''"
    with ts concat_wordsep_split [of behind s] have "s = CHR '' '' # concat ts"
      by simp
    with assms(3) show False by simp
  qed
  with assms(1) ts show ?thesis
    by (simp add: chunks_ok_Cons)
qed

lemma chunks_ok_wordsep_split: "spaced s \<Longrightarrow> chunks_ok (wordsep_split behind s)"
proof (induction behind s rule: wordsep_split.induct)
  case (1 behind)
  then show ?case by (simp add: wordsep_split.simps(1))
next
  case (2 behind c cs)
  show ?case
  proof (cases "whitespace c")
    case True
    then have "isspace c" by (rule whitespace_isspace)
    with 2(4) have c: "c = CHR '' ''" and cs: "cs \<noteq> []" "\<not> isspace (hd cs)" "spaced cs"
      by (auto simp: spaced_Cons split: if_splits)
    from cs have nw: "\<not> whitespace (hd cs)"
      by (blast dest: whitespace_isspace)
    with cs(1) True have tw: "takeWhile whitespace (c # cs) = [c]"
      and dw: "dropWhile whitespace cs = cs"
      by (cases cs; simp)+
    from 2(1) [OF True] cs(3) dw
    have ok: "chunks_ok (wordsep_split (rev (takeWhile whitespace (c # cs)) @ behind) cs)"
      by simp
    have eq: "wordsep_split behind (c # cs) = '' '' # wordsep_split (CHR '' '' # behind) cs"
      using wordsep_split_space [OF True, of behind cs] c tw dw by simp
    from chunks_ok_first [OF ok cs(1,2)] ok c tw show ?thesis
      unfolding eq by (simp add: chunks_ok_Cons)
  next
    case False
    with 2(4) have nsp: "\<not> isspace c" and cs: "spaced cs"
      by (auto simp: spaced_Cons whitespace_def split: if_splits)
    show ?thesis
    proof (cases "behind_word_punct behind \<and> dashes_then_word (c # cs)")
      case True
      let ?tok = "takeWhile is_hyphen (c # cs)"
      from True have h: "is_hyphen c" by (blast dest: dashes_then_word_hd)
      have "cs = takeWhile is_hyphen cs @ dropWhile is_hyphen cs"
        by simp
      with cs have "spaced (dropWhile is_hyphen cs)"
        by (metis spaced_append)
      with 2(2) [OF False True]
      have ok: "chunks_ok (wordsep_split (rev ?tok @ behind) (dropWhile is_hyphen cs))"
        by simp
      have "solid ?tok"
        using h by (auto simp: solid_def dest: set_takeWhileD hyphen_not_isspace)
      moreover from this have "?tok \<noteq> '' ''"
        by (metis not_solid_space)
      ultimately show ?thesis
        using ok by (simp only: wordsep_split_dash [OF False True] chunks_ok_Cons if_False simp_thms)
    next
      case word: False
      obtain tok rest where sw: "scan_word (c # behind) [c] cs = (tok, rest)"
        by (cases "scan_word (c # behind) [c] cs")
      from scan_word_result [OF sw] obtain k where k: "tok = c # take k cs" "rest = drop k cs"
        "\<forall>x \<in> set (take k cs). \<not> whitespace x"
        by auto
      from cs k(2) have "spaced rest"
        by (metis append_take_drop_id spaced_append)
      with 2(3) [OF False word sw [symmetric]]
      have ok: "chunks_ok (wordsep_split (rev tok @ behind) rest)"
        by simp
      have "\<not> isspace x" if "x \<in> set (take k cs)" for x
      proof
        assume "isspace x"
        moreover from that have "x \<in> set cs" by (rule in_set_takeD)
        ultimately have "x = CHR '' ''" using cs by (blast dest: spaced_member)
        with k(3) that show False by (auto simp: whitespace_def)
      qed
      with nsp k(1) have "solid tok"
        by (auto simp: solid_def)
      moreover from this have "tok \<noteq> '' ''"
        by (metis not_solid_space)
      ultimately show ?thesis
        using ok by (simp only: wordsep_split_word [OF False word sw] chunks_ok_Cons if_False simp_thms)
    qed
  qed
qed

lemma expandtabs_no_tab: "CHR 0x09 \<notin> set s \<Longrightarrow> expandtabs tabsize col s = s"
  by (induction s arbitrary: col) auto

lemma munge_whitespace_spaced:
  assumes "spaced s"
  shows "munge_whitespace s = s"
proof -
  have "CHR 0x09 \<notin> set s"
  proof
    assume "CHR 0x09 \<in> set s"
    with assms have "CHR 0x09 = CHR '' ''"
      using tab_isspace by (rule spaced_member)
    then show False by simp
  qed
  then have "expandtabs 8 0 s = s"
    by (rule expandtabs_no_tab)
  moreover have "map (\<lambda>c. if whitespace c then CHR '' '' else c) s = s"
    using assms by (intro map_idI) (auto dest: whitespace_isspace spaced_member)
  ultimately show ?thesis
    by (simp add: munge_whitespace_def)
qed

lemma chunks_ok_not_Nil: "chunks_ok cs \<Longrightarrow> c \<in> set cs \<Longrightarrow> c \<noteq> []"
  by (auto dest: chunks_ok_member simp: solid_def)

lemma split_chunks_spaced:
  assumes "spaced s" and "s = [] \<or> \<not> isspace (hd s)"
  shows "chunks_ok (split_chunks s)" and "concat (split_chunks s) = s"
    and "split_chunks s = [] \<or> solid (hd (split_chunks s))"
proof -
  have ok: "chunks_ok (wordsep_split [] s)"
    using assms(1) by (rule chunks_ok_wordsep_split)
  then have "filter (\<lambda>c. c \<noteq> []) (wordsep_split [] s) = wordsep_split [] s"
    by (auto simp: filter_id_conv dest: chunks_ok_not_Nil)
  then have eq: "split_chunks s = wordsep_split [] s"
    using assms(1) by (simp add: split_chunks_def munge_whitespace_spaced)
  with ok show "chunks_ok (split_chunks s)" by simp
  from eq show "concat (split_chunks s) = s" by (simp add: concat_wordsep_split)
  show "split_chunks s = [] \<or> solid (hd (split_chunks s))"
  proof (cases "s = []")
    case True
    with eq show ?thesis by (simp add: wordsep_split.simps(1))
  next
    case False
    with assms(2) chunks_ok_first [OF ok False] eq show ?thesis by simp
  qed
qed

subsection \<open>The lines of a wrapped text\<close>

lemma follows_here: "follows ls r \<Longrightarrow> follows (l # ls) (l @ r)"
  by simp

lemma follows_after_space: "follows ls r \<Longrightarrow> follows (l # ls) (CHR '' '' # l @ r)"
  by simp

lemma rejoins_here: "follows ls r \<Longrightarrow> rejoins (l # ls) (l @ r)"
  by (simp add: rejoins_def)

lemma follows_space:
  assumes "follows ls t" and "t \<noteq> []" and "hd t \<noteq> CHR '' ''"
  shows "follows ls (CHR '' '' # t)"
proof (cases ls)
  case Nil
  with assms show ?thesis by simp
next
  case (Cons l ls')
  from assms(2,3) have "take 1 t \<noteq> '' ''"
    by (cases t) auto
  with assms(1) Cons have "take (length l) t = l \<and> follows ls' (drop (length l) t)"
    by auto
  with Cons show ?thesis by simp
qed

lemma no_space_strip: "\<forall>x \<in> set c. \<not> isspace x \<Longrightarrow> strip c = c"
proof (cases c rule: rev_cases)
  case Nil
  then show ?thesis by (simp add: strip_def lstrip_def rstrip_def)
next
  case (snoc ys y)
  assume a: "\<forall>x \<in> set c. \<not> isspace x"
  then have "dropWhile isspace c = c"
    by (cases c) auto
  moreover from a snoc have "dropWhile isspace (rev c) = rev c"
    by simp
  ultimately show ?thesis
    by (simp add: strip_def lstrip_def rstrip_def)
qed

lemma solid_strip: "solid c \<Longrightarrow> strip c \<noteq> []"
  by (simp add: solid_def no_space_strip)

lemma strip_space: "strip '' '' = []"
  by (simp add: strip_def lstrip_def rstrip_def)

lemma strip_Nil: "strip [] = []"
  by (simp add: strip_def lstrip_def rstrip_def)

lemma solid_hd_concat:
  assumes "cs \<noteq> []" and "solid (hd cs)"
  shows "concat cs \<noteq> [] \<and> hd (concat cs) \<noteq> CHR '' ''"
proof -
  from assms obtain c cs' where cs: "cs = c # cs'" and c: "solid c"
    by (cases cs) auto
  from c obtain x xs where x: "c = x # xs" "\<not> isspace x"
    by (cases c) (auto simp: solid_def)
  then have "x \<noteq> CHR '' ''"
    by auto
  with cs x show ?thesis by simp
qed

lemma rfind_Some: "rfind c s stop = Some i \<Longrightarrow> i < stop"
proof -
  assume a: "rfind c s stop = Some i"
  then obtain xs where "filter (\<lambda>i. s ! i = c) (rev [0..<min stop (length s)]) = i # xs"
    by (auto simp: rfind_def split: list.splits)
  then have "i \<in> set (filter (\<lambda>i. s ! i = c) (rev [0..<min stop (length s)]))"
    by simp
  then show ?thesis by simp
qed

lemma handle_long_word_result:
  assumes "handle_long_word (chunk # chunks) cur_line cur_len width = (l, rest)"
    and "0 < width"
  shows "\<exists>e. l = cur_line @ [take e chunk] \<and> rest = drop e chunk # chunks \<and>
             e \<le> width - cur_len \<and> (cur_len < width \<longrightarrow> 0 < e)"
proof -
  define space_left where "space_left = (if width < 1 then 1 else width - cur_len)"
  define e where "e = (if length chunk > space_left then
                   (case rfind CHR ''-'' chunk space_left of
                      Some hyphen \<Rightarrow>
                        if hyphen > 0 \<and> (\<exists>c \<in> set (take hyphen chunk). c \<noteq> CHR ''-'')
                        then hyphen + 1 else space_left
                    | None \<Rightarrow> space_left)
                 else space_left)"
  have res: "l = cur_line @ [take e chunk]" "rest = drop e chunk # chunks"
    unfolding e_def space_left_def using assms(1) by (auto simp: Let_def)
  from assms(2) have sl: "space_left = width - cur_len"
    by (simp add: space_left_def)
  have le: "e \<le> space_left"
    by (auto simp: e_def split: option.splits dest: rfind_Some)
  have pos: "0 < space_left \<Longrightarrow> 0 < e"
    by (auto simp: e_def split: option.splits)
  from res le pos sl show ?thesis
    by (intro exI [of _ e]) auto
qed

lemma next_line_unfold:
  assumes "fill_line w [] 0 (if strip (hd cs) = [] \<and> started then tl cs else cs) = (p, n, cs2)"
  shows "next_line w started cs =
     (case (if cs2 \<noteq> [] \<and> length (hd cs2) > w then handle_long_word cs2 p n w else (p, cs2)) of
        (cur_line, chunks) \<Rightarrow>
          (if cur_line \<noteq> [] \<and> strip (last cur_line) = [] then butlast cur_line else cur_line,
           chunks))"
  using assms by (simp add: next_line_def Let_def)

lemma next_line_step:
  assumes w: "0 < w" and ok: "chunks_ok cs" and ne: "cs \<noteq> []"
    and st: "\<not> started \<Longrightarrow> solid (hd cs)"
    and nl: "next_line w started cs = (cl, cs')"
  shows "cl \<noteq> [] \<and> length (concat cl) \<le> w \<and> chunks_ok cs' \<and>
    (\<exists>sep0 rest. concat cs = sep0 @ concat cl @ rest \<and>
       (sep0 = [] \<or> sep0 = '' '' \<and> started) \<and>
       (rest = concat cs' \<or> rest = CHR '' '' # concat cs' \<and> cs' \<noteq> [] \<and> solid (hd cs')))"
proof -
  define cs1 where "cs1 = (if strip (hd cs) = [] \<and> started then tl cs else cs)"
  from ne obtain c0 cs0 where cs: "cs = c0 # cs0"
    by (cases cs) auto
  from ok cs have c0: "c0 = '' '' \<or> solid c0"
    by (auto dest: chunks_ok_member)
  have s1: "cs1 \<noteq> [] \<and> solid (hd cs1) \<and> chunks_ok cs1 \<and>
            (\<exists>sep0. concat cs = sep0 @ concat cs1 \<and> (sep0 = [] \<or> sep0 = '' '' \<and> started))"
  proof (cases "c0 = '' '' \<and> started")
    case True
    with cs have "cs1 = cs0"
      by (simp add: cs1_def strip_space)
    moreover from ok cs True have "cs0 \<noteq> [] \<and> solid (hd cs0) \<and> chunks_ok cs0"
      by (simp add: chunks_ok_Cons)
    moreover from cs True have "concat cs = '' '' @ concat cs0"
      by simp
    ultimately show ?thesis
      using True by blast
  next
    case False
    with c0 st cs have sol: "solid c0"
      by (cases started) auto
    then have "strip c0 \<noteq> []"
      by (rule solid_strip)
    with cs have "cs1 = cs"
      by (simp add: cs1_def)
    with sol cs ok ne show ?thesis
      by (intro conjI exI [of _ "[]"]) simp_all
  qed
  then obtain sep0 where sep0: "concat cs = sep0 @ concat cs1" "sep0 = [] \<or> sep0 = '' '' \<and> started"
    by blast
  obtain p n cs2 where fl: "fill_line w [] 0 cs1 = (p, n, cs2)"
    by (metis prod_cases3)
  from fill_line_result [OF fl] have p: "cs1 = p @ cs2" "n = sum_list (map length p)"
    "cs2 \<noteq> [] \<longrightarrow> w < n + length (hd cs2)" "n \<le> w"
    by auto
  from p(2) have n: "n = length (concat p)"
    by (simp add: length_concat)
  from s1 p(1) have ok2: "chunks_ok cs2"
    by (metis chunks_ok_append)
  note unf = next_line_unfold [OF fl [unfolded cs1_def]]
  show ?thesis
  proof (cases "cs2 \<noteq> [] \<and> length (hd cs2) > w")
    case True
    then obtain c cs2' where cs2: "cs2 = c # cs2'" and long: "w < length c"
      by (cases cs2) auto
    obtain l' r' where h: "handle_long_word (c # cs2') p n w = (l', r')"
      by (cases "handle_long_word (c # cs2') p n w")
    from handle_long_word_result [OF h w] obtain e where e: "l' = p @ [take e c]"
      "r' = drop e c # cs2'" "e \<le> w - n" "n < w \<longrightarrow> 0 < e"
      by blast
    from nl unf True cs2 h
    have res: "cl = (if l' \<noteq> [] \<and> strip (last l') = [] then butlast l' else l')" "cs' = r'"
      by simp_all
    from ok2 cs2 have "c = '' '' \<or> solid c"
      by (auto dest: chunks_ok_member)
    with long w have sol: "solid c"
      by auto
    with ok2 cs2 have ok2': "chunks_ok cs2'"
      by (auto simp: chunks_ok_Cons split: if_splits)
    from sol have nosp: "\<forall>x \<in> set (take e c). \<not> isspace x"
      by (auto simp: solid_def dest: in_set_takeD)
    then have strip_take: "strip (take e c) = take e c"
      by (rule no_space_strip)
    show ?thesis
    proof (cases "e = 0")
      case e0: True
      with e res have cl: "cl = p" and cs': "cs' = cs2"
        by (simp_all add: strip_Nil cs2)
      from e0 e(4) p(4) w have "0 < n"
        by auto
      with n have "p \<noteq> []"
        by auto
      moreover from cl n p(4) have "length (concat cl) \<le> w"
        by simp
      moreover from sep0 p(1) cl cs' have "concat cs = sep0 @ concat cl @ concat cs'"
        by simp
      ultimately show ?thesis
        using cl cs' ok2 sep0(2) by blast
    next
      case epos: False
      with long e(3) have tne: "take e c \<noteq> []"
        by (cases c) auto
      with e res strip_take have cl: "cl = p @ [take e c]" and cs': "cs' = drop e c # cs2'"
        by simp_all
      from long e(3) have dne: "drop e c \<noteq> []"
        by simp
      with sol have "solid (drop e c)"
        by (auto simp: solid_def dest: in_set_dropD)
      with ok2' cs' have "chunks_ok cs'"
        by (auto simp: chunks_ok_Cons)
      moreover from cl have "cl \<noteq> []"
        by simp
      moreover from cl n e(3) p(4) have "length (concat cl) \<le> w"
        by simp
      moreover from sep0 p(1) cl cs' cs2 have "concat cs = sep0 @ concat cl @ concat cs'"
        by simp
      ultimately show ?thesis
        using sep0(2) by blast
    qed
  next
    case False
    with nl unf
    have res: "cl = (if p \<noteq> [] \<and> strip (last p) = [] then butlast p else p)" "cs' = cs2"
      by simp_all
    have pne: "p \<noteq> []"
    proof
      assume "p = []"
      with p s1 have "cs2 \<noteq> []" "n = 0" by auto
      with p(3) False show False by simp
    qed
    with p(1) s1 have hdp: "solid (hd p)"
      by (cases p) auto
    from pne p(1) have "last p \<in> set cs1"
      by (metis Un_iff last_in_set set_append)
    with s1 have lastp: "last p = '' '' \<or> solid (last p)"
      by (blast dest: chunks_ok_member)
    show ?thesis
    proof (cases "last p = '' ''")
      case True
      with pne res have cl: "cl = butlast p"
        by (simp add: strip_space)
      from pne True have pb: "p = butlast p @ ['' '']"
        by (metis append_butlast_last_id)
      have "butlast p \<noteq> []"
      proof
        assume "butlast p = []"
        with pb have "p = ['' '']" by simp
        with hdp show False by simp
      qed
      moreover from pb have "concat p = concat (butlast p) @ '' ''"
        by (metis concat.simps(1,2) concat_append append_Nil2)
      moreover from s1 p(1) pb have "chunks_ok (butlast p @ ('' '' # cs2))"
        by (metis append.assoc append_Cons append_Nil)
      then have "chunks_ok ('' '' # cs2)"
        by (rule chunks_ok_append)
      then have "cs2 \<noteq> [] \<and> solid (hd cs2)"
        by (simp add: chunks_ok_Cons)
      moreover from cl n p(4) have "length (concat cl) \<le> w"
        using \<open>concat p = concat (butlast p) @ '' ''\<close> by simp
      ultimately have "cl \<noteq> []" "length (concat cl) \<le> w" "chunks_ok cs'"
        "concat cs = sep0 @ concat cl @ (CHR '' '' # concat cs')" "cs' \<noteq> [] \<and> solid (hd cs')"
        using cl res(2) ok2 sep0(1) p(1) by simp_all
      then show ?thesis
        using sep0(2) by blast
    next
      case False
      with lastp have "strip (last p) \<noteq> []"
        by (blast dest: solid_strip)
      with res have cl: "cl = p"
        by simp
      with pne n p(4) res(2) ok2 sep0(1) p(1)
      have "cl \<noteq> []" "length (concat cl) \<le> w" "chunks_ok cs'"
        "concat cs = sep0 @ concat cl @ concat cs'"
        by simp_all
      then show ?thesis
        using sep0(2) by blast
    qed
  qed
qed

lemma wrap_lines_follows:
  "0 < w \<Longrightarrow> chunks_ok cs \<Longrightarrow> (lines = [] \<longrightarrow> cs = [] \<or> solid (hd cs)) \<Longrightarrow>
   \<exists>more. wrap_lines w lines cs = lines @ more \<and>
     (if lines = [] then rejoins more (concat cs) else follows more (concat cs)) \<and>
     (\<forall>l \<in> set more. length l \<le> w)"
proof (induction w lines cs rule: wrap_lines.induct)
  case (1 width lines chunks)
  show ?case
  proof (cases "chunks = []")
    case True
    then have "wrap_lines width lines chunks = lines @ []"
      by (simp add: wrap_lines.simps)
    with True show ?thesis
      by (intro exI [of _ "[]"]) (simp add: rejoins_def)
  next
    case False
    obtain cl cs' where nl: "next_line width (lines \<noteq> []) chunks = (cl, cs')"
      by (cases "next_line width (lines \<noteq> []) chunks")
    from 1(4) False have st: "\<not> lines \<noteq> [] \<Longrightarrow> solid (hd chunks)"
      by simp
    from next_line_step [OF 1(2) 1(3) False st nl]
    obtain sep0 rest where step: "cl \<noteq> []" "length (concat cl) \<le> width" "chunks_ok cs'"
      "concat chunks = sep0 @ concat cl @ rest" "sep0 = [] \<or> sep0 = '' '' \<and> lines \<noteq> []"
      "rest = concat cs' \<or> rest = CHR '' '' # concat cs' \<and> cs' \<noteq> [] \<and> solid (hd cs')"
      by blast
    let ?lines = "lines @ [concat cl]"
    from step(1) have eq: "(if cl \<noteq> [] then lines @ [concat cl] else lines) = ?lines"
      by simp
    from 1(1) [OF False nl [symmetric] 1(2) step(3), unfolded eq]
    obtain more where more: "wrap_lines width ?lines cs' = ?lines @ more"
      "follows more (concat cs')" "\<forall>l \<in> set more. length l \<le> width"
      by auto
    have "wrap_lines width lines chunks = wrap_lines width ?lines cs'"
      using False nl step(1) by (subst wrap_lines.simps) simp
    with more(1) have res: "wrap_lines width lines chunks = lines @ (concat cl # more)"
      by simp
    from step(6) have fr: "follows more rest"
    proof
      assume "rest = concat cs'"
      with more(2) show ?thesis by simp
    next
      assume a: "rest = CHR '' '' # concat cs' \<and> cs' \<noteq> [] \<and> solid (hd cs')"
      then have "concat cs' \<noteq> [] \<and> hd (concat cs') \<noteq> CHR '' ''"
        by (blast dest: solid_hd_concat)
      with more(2) a show ?thesis
        by (simp add: follows_space)
    qed
    have "if lines = [] then rejoins (concat cl # more) (concat chunks)
          else follows (concat cl # more) (concat chunks)"
    proof (cases "lines = []")
      case True
      with step(4,5) have "concat chunks = concat cl @ rest"
        by auto
      with True fr show ?thesis
        by (simp add: rejoins_here)
    next
      case False
      from step(5) have "follows (concat cl # more) (concat chunks)"
      proof
        assume "sep0 = []"
        with step(4) have "concat chunks = concat cl @ rest" by simp
        with fr show ?thesis by (simp only: follows_here)
      next
        assume "sep0 = '' '' \<and> lines \<noteq> []"
        with step(4) have "concat chunks = CHR '' '' # concat cl @ rest" by simp
        with fr show ?thesis by (simp only: follows_after_space)
      qed
      with False show ?thesis by simp
    qed
    with res step(2) more(3) show ?thesis
      by (intro exI [of _ "concat cl # more"]) simp
  qed
qed

lemma wrap_spaced:
  assumes "0 < w" and "spaced t" and "t = [] \<or> \<not> isspace (hd t)"
  shows "\<exists>ls. wrap t w = Inr ls \<and> (\<forall>l \<in> set ls. length l \<le> w) \<and> rejoins ls t"
proof -
  note sc = split_chunks_spaced [OF assms(2,3)]
  from wrap_lines_follows [of w "split_chunks t" "[]"] assms(1) sc(1,3)
  obtain more where "wrap_lines w [] (split_chunks t) = more"
    "rejoins more (concat (split_chunks t))" "\<forall>l \<in> set more. length l \<le> w"
    by auto
  with sc(2) assms(1) show ?thesis
    by (simp add: wrap_def wrap_chunks_def)
qed

text \<open>
  C3: for every blob, which \<^verbatim>\<open>_run_dadadodo\<close> has decoded from ASCII, \<^verbatim>\<open>textwrap.wrap\<close>
  returns normally on the normalized text, these lines are the ones that
  \<^verbatim>\<open>_extract_tweets\<close> gives to \<^verbatim>\<open>_fix_rt\<close>, every line has at most 140 characters, and
  the lines put together in their order, with one space or nothing between two of them,
  are the normalized text: no character is dropped but the one space at a line break, and
  none is duplicated.
\<close>

theorem wrap_lossless:
  assumes "list_all is_ascii blob"
  shows "\<exists>chunks. wrap (collapse_whitespace blob) TWEET_MAXLENGTH = Inr chunks \<and>
           extract_tweets blob = Inr (map fix_rt chunks) \<and>
           (\<forall>c \<in> set chunks. length c \<le> TWEET_MAXLENGTH) \<and>
           rejoins chunks (collapse_whitespace blob)"
proof -
  have "0 < TWEET_MAXLENGTH"
    by (simp add: TWEET_MAXLENGTH_def)
  from wrap_spaced [OF this] collapse_whitespace_spaced [of blob]
  obtain ls where ls: "wrap (collapse_whitespace blob) TWEET_MAXLENGTH = Inr ls"
    "\<forall>l \<in> set ls. length l \<le> TWEET_MAXLENGTH" "rejoins ls (collapse_whitespace blob)"
    by blast
  then have "extract_tweets blob = Inr (map fix_rt ls)"
    by (simp add: extract_tweets_def)
  with ls show ?thesis by blast
qed

theorem wrap_lossless_witness:
  "list_all is_ascii example_blob \<and>
   (\<exists>chunks. wrap (collapse_whitespace example_blob) TWEET_MAXLENGTH = Inr chunks \<and>
      extract_tweets example_blob = Inr (map fix_rt chunks) \<and>
      (\<forall>c \<in> set chunks. length c \<le> TWEET_MAXLENGTH) \<and>
      rejoins chunks (collapse_whitespace example_blob)) \<and>
   wrap (collapse_whitespace example_blob) TWEET_MAXLENGTH =
     Inr [''the quick brown fox jumps over the lazy dog and keeps running through the well-known '' @
          ''forest until the evening comes, when it finally rests'',
          ''under an old oak-tree near the river bank'']"
proof -
  have ascii: "list_all is_ascii example_blob"
    by code_simp
  have lines: "wrap (collapse_whitespace example_blob) TWEET_MAXLENGTH =
     Inr [''the quick brown fox jumps over the lazy dog and keeps running through the well-known '' @
          ''forest until the evening comes, when it finally rests'',
          ''under an old oak-tree near the river bank'']"
    by code_simp
  from wrap_lossless [OF ascii] ascii lines show ?thesis
    by (intro conjI)
qed

end
